theory Spec2Isabelle
  imports Main
begin

section \<open>The queue of ThreadSafeQueue.hpp\<close>

text \<open>
  The private members of \<^verbatim>\<open>ThreadSafeQueue<T>\<close> that carry data: the
  \<^verbatim>\<open>std::queue<T> m_queue\<close> (front of the queue = head of the list) and the
  flag \<^verbatim>\<open>m_joined\<close>. The mutex makes every member function one critical
  section over this pair, or two when the function waits on \<^verbatim>\<open>m_condition\<close>.
\<close>

record 'a ThreadSafeQueue =
  m_queue :: "'a list"
  m_joined :: bool

text \<open>What a critical section does to \<^verbatim>\<open>m_condition\<close> before it returns.\<close>

datatype notification = No_notify | Notify_one | Notify_all

text \<open>
  How a critical section ends. \<open>Returns r s n\<close>: the member function returns \<open>r\<close>,
  leaves the members as \<open>s\<close> and has notified as \<open>n\<close>. \<open>Waits s\<close>: the predicate of
  \<^verbatim>\<open>m_condition.wait(lock, pred)\<close> is false, so the caller releases the mutex
  with the members as \<open>s\<close> and sleeps on the condition variable.
  \<open>Undefined_behaviour\<close>: \<^verbatim>\<open>front()\<close> or \<^verbatim>\<open>pop()\<close> on an empty
  \<^verbatim>\<open>std::queue\<close>.
\<close>

datatype ('r, 'a) outcome =
    Returns 'r "'a ThreadSafeQueue" notification
  | Waits "'a ThreadSafeQueue"
  | Undefined_behaviour

subsection \<open>get\<close>

text \<open>The predicate of the wait in \<^verbatim>\<open>get\<close> (lines 58 to 60).\<close>

definition get_pred :: "'a ThreadSafeQueue \<Rightarrow> bool" where
  "get_pred s \<longleftrightarrow> m_queue s \<noteq> [] \<or> (m_joined s \<and> m_queue s = [])"

text \<open>Lines 68 to 76: what \<^verbatim>\<open>get\<close> does once the wait is over.\<close>

definition get_after_wait :: "'a ThreadSafeQueue \<Rightarrow> ('a option, 'a) outcome" where
  "get_after_wait s =
     (if m_joined s \<and> length (m_queue s) = 0 then Returns None s No_notify
      else (case m_queue s of
              [] \<Rightarrow> Undefined_behaviour
            | out # rest \<Rightarrow> Returns (Some out) (s\<lparr>m_queue := rest\<rparr>) Notify_all))"

text \<open>
  \<^verbatim>\<open>m_condition.wait(lock, pred)\<close> is \<^verbatim>\<open>while (!pred()) wait(lock);\<close>:
  with the mutex held, the predicate is evaluated; when it is false the caller sleeps, and
  every wake-up (a notification or a spurious one) comes back here.
\<close>

definition get_wake :: "'a ThreadSafeQueue \<Rightarrow> ('a option, 'a) outcome" where
  "get_wake s = (if get_pred s then get_after_wait s else Waits s)"

text \<open>Lines 44 to 77. The first test is the one of lines 50 to 52.\<close>

definition get :: "'a ThreadSafeQueue \<Rightarrow> ('a option, 'a) outcome" where
  "get s =
     (if m_joined s \<and> length (m_queue s) = 0 then Returns None s No_notify
      else get_wake s)"

subsection \<open>push\<close>

text \<open>Lines 84 to 97.\<close>

definition push :: "'a \<Rightarrow> 'a ThreadSafeQueue \<Rightarrow> (bool, 'a) outcome" where
  "push v s =
     (if m_joined s then Returns False s No_notify
      else Returns True (s\<lparr>m_queue := m_queue s @ [v]\<rparr>) Notify_one)"

subsection \<open>The observers\<close>

text \<open>Lines 102 to 106, 112 to 115 and 163 to 167.\<close>

definition empty_q :: "'a ThreadSafeQueue \<Rightarrow> (bool, 'a) outcome" where
  "empty_q s = Returns (m_queue s = []) s No_notify"

definition complete :: "'a ThreadSafeQueue \<Rightarrow> (bool, 'a) outcome" where
  "complete s = Returns (m_joined s \<and> m_queue s = []) s No_notify"

definition size_q :: "'a ThreadSafeQueue \<Rightarrow> (nat, 'a) outcome" where
  "size_q s = Returns (length (m_queue s)) s No_notify"

subsection \<open>stop and join\<close>

text \<open>Lines 124 to 132.\<close>

definition stop :: "'a ThreadSafeQueue \<Rightarrow> (unit, 'a) outcome" where
  "stop s = Returns () (s\<lparr>m_joined := True\<rparr>) Notify_all"

text \<open>The predicate of the wait in \<^verbatim>\<open>join\<close> (line 152).\<close>

definition join_pred :: "'a ThreadSafeQueue \<Rightarrow> bool" where
  "join_pred s \<longleftrightarrow> m_joined s \<and> m_queue s = []"

text \<open>
  The wait of \<^verbatim>\<open>join\<close> (lines 150 to 154), entered first by the call and
  again at every wake-up; nothing follows the wait.
\<close>

definition join_wake :: "'a ThreadSafeQueue \<Rightarrow> (unit, 'a) outcome" where
  "join_wake s = (if join_pred s then Returns () s No_notify else Waits s)"

text \<open>Lines 139 to 155.\<close>

definition join :: "'a ThreadSafeQueue \<Rightarrow> (unit, 'a) outcome" where
  "join s =
     (let s' = s\<lparr>m_joined := True\<rparr>
      in if length (m_queue s') = 0 then Returns () s' No_notify else join_wake s')"

subsection \<open>Calls and critical sections\<close>

text \<open>The public member functions, and what each returns.\<close>

datatype 'a op = Op_get | Op_push 'a | Op_empty | Op_size | Op_complete | Op_stop | Op_join

datatype 'a result =
    Got "'a option" | Pushed bool | Is_empty bool | Count nat | Is_complete bool | Done

definition call :: "'a op \<Rightarrow> 'a ThreadSafeQueue \<Rightarrow> ('a result, 'a) outcome" where
  "call f s =
     (case f of
        Op_get \<Rightarrow> map_outcome Got (get s)
      | Op_push v \<Rightarrow> map_outcome Pushed (push v s)
      | Op_empty \<Rightarrow> map_outcome Is_empty (empty_q s)
      | Op_size \<Rightarrow> map_outcome Count (size_q s)
      | Op_complete \<Rightarrow> map_outcome Is_complete (complete s)
      | Op_stop \<Rightarrow> map_outcome (\<lambda>_. Done) (stop s)
      | Op_join \<Rightarrow> map_outcome (\<lambda>_. Done) (join s))"

text \<open>
  Everything that runs under the mutex: the critical section a call starts with, and
  the one a caller sleeping in \<^verbatim>\<open>get\<close> or \<^verbatim>\<open>join\<close> runs when it wakes up.
  Whatever the number of threads, the members change by a sequence of these.
\<close>

datatype 'a action = Call "'a op" | Wake_get | Wake_join

definition perform :: "'a action \<Rightarrow> 'a ThreadSafeQueue \<Rightarrow> ('a result, 'a) outcome" where
  "perform a s =
     (case a of
        Call f \<Rightarrow> call f s
      | Wake_get \<Rightarrow> map_outcome Got (get_wake s)
      | Wake_join \<Rightarrow> map_outcome (\<lambda>_. Done) (join_wake s))"

text \<open>The members when the mutex is released.\<close>

fun members_after :: "('r, 'a) outcome \<Rightarrow> 'a ThreadSafeQueue option" where
  "members_after (Returns r s n) = Some s"
| "members_after (Waits s) = Some s"
| "members_after Undefined_behaviour = None"

text \<open>What the call gives back to its caller, when it returns.\<close>

fun returned :: "('r, 'a) outcome \<Rightarrow> 'r option" where
  "returned (Returns r s n) = Some r"
| "returned (Waits s) = None"
| "returned Undefined_behaviour = None"

fun run :: "'a action list \<Rightarrow> 'a ThreadSafeQueue \<Rightarrow> 'a ThreadSafeQueue option" where
  "run [] s = Some s"
| "run (a # as) s =
     (case members_after (perform a s) of
        None \<Rightarrow> None
      | Some s' \<Rightarrow> run as s')"

text \<open>The state that \<^verbatim>\<open>complete\<close> reports: closed and empty.\<close>

definition is_complete :: "'a ThreadSafeQueue \<Rightarrow> bool" where
  "is_complete s \<longleftrightarrow> m_joined s \<and> m_queue s = []"

subsection \<open>One producer, one consumer\<close>

text \<open>
  A producer that pushes the values of a list in order, with the results of its calls;
  a consumer that calls \<^verbatim>\<open>get\<close> \<open>n\<close> times in a row, with the results of the
  calls that returned. A consumer whose call waits is asleep, and with nobody else
  running it makes no further call.
\<close>

fun push_all :: "'a list \<Rightarrow> 'a ThreadSafeQueue \<Rightarrow> bool list \<times> 'a ThreadSafeQueue" where
  "push_all [] s = ([], s)"
| "push_all (v # vs) s =
     (case push v s of
        Returns ok s' n \<Rightarrow> (case push_all vs s' of (oks, s'') \<Rightarrow> (ok # oks, s''))
      | Waits s' \<Rightarrow> ([], s')
      | Undefined_behaviour \<Rightarrow> ([], s))"

fun get_n :: "nat \<Rightarrow> 'a ThreadSafeQueue \<Rightarrow> 'a option list \<times> 'a ThreadSafeQueue" where
  "get_n 0 s = ([], s)"
| "get_n (Suc n) s =
     (case get s of
        Returns r s' k \<Rightarrow> (case get_n n s' of (rs, s'') \<Rightarrow> (r # rs, s''))
      | Waits s' \<Rightarrow> ([], s')
      | Undefined_behaviour \<Rightarrow> ([], s))"

text \<open>
  What a sequence of critical sections hands out and takes in: the values returned by
  \<^verbatim>\<open>get\<close>, in the order of the returns, and the values of the pushes that
  returned true, in the order of the pushes.
\<close>

fun handed_out :: "('a result, 'a) outcome \<Rightarrow> 'a list" where
  "handed_out (Returns (Got (Some x)) s n) = [x]"
| "handed_out out = []"

fun taken_in :: "'a action \<Rightarrow> ('a result, 'a) outcome \<Rightarrow> 'a list" where
  "taken_in (Call (Op_push v)) (Returns (Pushed True) s n) = [v]"
| "taken_in a out = []"

fun history :: "'a action list \<Rightarrow> 'a ThreadSafeQueue \<Rightarrow> 'a list \<times> 'a list" where
  "history [] s = ([], [])"
| "history (a # as) s =
     (case members_after (perform a s) of
        None \<Rightarrow> ([], [])
      | Some s' \<Rightarrow>
          (case history as s' of
             (gs, ps) \<Rightarrow> (handed_out (perform a s) @ gs, taken_in a (perform a s) @ ps)))"

subsection \<open>Threads and the condition variable\<close>

text \<open>
  Where a thread stands. \<open>Ready r\<close>: outside any call, \<open>r\<close> being what its last call
  returned. \<open>Asleep b\<close>: inside \<^verbatim>\<open>wait(lock)\<close> of the call \<open>b\<close>, in the wait set of
  \<^verbatim>\<open>m_condition\<close>. \<open>Notified b\<close>: taken out of the wait set; it has to take the
  mutex again and test its predicate. \<open>Leaving n r\<close>: it has unlocked the mutex
  (\<^verbatim>\<open>lock.unlock()\<close>, lines 93 and 129); the notification \<open>n\<close> and the return of
  \<open>r\<close> are still to come.
\<close>

datatype blocked = In_get | In_join

datatype 'a thread =
    Ready "'a result option"
  | Asleep blocked
  | Notified blocked
  | Leaving notification "'a result"

record 'a system =
  members :: "'a ThreadSafeQueue"
  threads :: "'a thread list"

fun is_asleep :: "'a thread \<Rightarrow> bool" where
  "is_asleep (Asleep b) = True"
| "is_asleep t = False"

fun wake :: "'a thread \<Rightarrow> 'a thread" where
  "wake (Asleep b) = Notified b"
| "wake t = t"

text \<open>
  \<^verbatim>\<open>notify_one\<close> takes one thread out of the wait set, any of them: the list has
  one entry for each choice, and none when no thread sleeps.
\<close>

fun wake_one :: "'a thread list \<Rightarrow> 'a thread list list" where
  "wake_one [] = []"
| "wake_one (t # ts) =
     (if is_asleep t then [wake t # ts] else []) @ map ((#) t) (wake_one ts)"

text \<open>The wait sets a notification can leave behind; it is lost when no thread sleeps.\<close>

fun notify :: "notification \<Rightarrow> 'a thread list \<Rightarrow> 'a thread list list" where
  "notify No_notify ts = [ts]"
| "notify Notify_all ts = [map wake ts]"
| "notify Notify_one ts = (if wake_one ts = [] then [ts] else wake_one ts)"

text \<open>
  \<^verbatim>\<open>push\<close> and \<^verbatim>\<open>stop\<close> unlock the mutex before they notify; \<^verbatim>\<open>get\<close>
  notifies with the mutex held.
\<close>

fun unlocks_first :: "'a op \<Rightarrow> bool" where
  "unlocks_first (Op_push v) = True"
| "unlocks_first Op_stop = True"
| "unlocks_first f = False"

text \<open>Only \<^verbatim>\<open>get\<close> and \<^verbatim>\<open>join\<close> wait; which wait a sleeping caller is in.\<close>

fun sleeps_in :: "'a op \<Rightarrow> blocked" where
  "sleeps_in Op_join = In_join"
| "sleeps_in f = In_get"

fun wake_action :: "blocked \<Rightarrow> 'a action" where
  "wake_action In_get = Wake_get"
| "wake_action In_join = Wake_join"

text \<open>
  What can happen next: thread \<open>t\<close> calls a member function; thread \<open>t\<close>, notified, takes
  the mutex and tests its predicate; thread \<open>t\<close> notifies after its unlock and returns;
  thread \<open>t\<close> wakes up with no notification (the C++ standard allows it).
\<close>

datatype 'a event = Calls nat "'a op" | Wakes nat | Notifies nat | Spurious nat

text \<open>The end of a critical section of thread \<open>t\<close>, \<open>early\<close> when the unlock comes first.\<close>

fun finish ::
  "nat \<Rightarrow> bool \<Rightarrow> blocked \<Rightarrow> 'a thread list \<Rightarrow> ('a result, 'a) outcome \<Rightarrow> 'a system list" where
  "finish t early b ts (Returns r s n) =
     (if n = No_notify then [\<lparr>members = s, threads = ts[t := Ready (Some r)]\<rparr>]
      else if early then [\<lparr>members = s, threads = ts[t := Leaving n r]\<rparr>]
      else map (\<lambda>ts'. \<lparr>members = s, threads = ts'[t := Ready (Some r)]\<rparr>) (notify n ts))"
| "finish t early b ts (Waits s) = [\<lparr>members = s, threads = ts[t := Asleep b]\<rparr>]"
| "finish t early b ts Undefined_behaviour = []"

text \<open>The systems an event can lead to; none when the event cannot happen.\<close>

fun step :: "'a event \<Rightarrow> 'a system \<Rightarrow> 'a system list" where
  "step (Calls t f) c =
     (if t < length (threads c) then
        (case threads c ! t of
           Ready r \<Rightarrow> finish t (unlocks_first f) (sleeps_in f) (threads c) (call f (members c))
         | _ \<Rightarrow> [])
      else [])"
| "step (Wakes t) c =
     (if t < length (threads c) then
        (case threads c ! t of
           Notified b \<Rightarrow> finish t False b (threads c) (perform (wake_action b) (members c))
         | _ \<Rightarrow> [])
      else [])"
| "step (Notifies t) c =
     (if t < length (threads c) then
        (case threads c ! t of
           Leaving n r \<Rightarrow>
             map (\<lambda>ts'. c\<lparr>threads := ts'[t := Ready (Some r)]\<rparr>) (notify n (threads c))
         | _ \<Rightarrow> [])
      else [])"
| "step (Spurious t) c =
     (if t < length (threads c) then
        (case threads c ! t of
           Asleep b \<Rightarrow> [c\<lparr>threads := (threads c)[t := Notified b]\<rparr>]
         | _ \<Rightarrow> [])
      else [])"

fun steps :: "'a event list \<Rightarrow> 'a system \<Rightarrow> 'a system list" where
  "steps [] c = [c]"
| "steps (e # es) c = concat (map (steps es) (step e c))"

text \<open>A new queue (no item, \<^verbatim>\<open>m_joined { false }\<close>) and \<open>k\<close> threads yet to call.\<close>

definition start :: "nat \<Rightarrow> 'a system" where
  "start k = \<lparr>members = \<lparr>m_queue = [], m_joined = False\<rparr>, threads = replicate k (Ready None)\<rparr>"

text \<open>
  A consumer that the shutdown has passed by: thread \<open>t\<close> sleeps in \<^verbatim>\<open>get\<close>, the
  queue is closed and empty, and no thread is between its unlock and its notification.
\<close>

fun is_leaving :: "'a thread \<Rightarrow> bool" where
  "is_leaving (Leaving n r) = True"
| "is_leaving t = False"

definition overlooked :: "nat \<Rightarrow> 'a system \<Rightarrow> bool" where
  "overlooked t c \<longleftrightarrow>
     is_complete (members c) \<and> t < length (threads c) \<and> threads c ! t = Asleep In_get \<and>
     list_all (\<lambda>x. \<not> is_leaving x) (threads c)"

text \<open>The events that take thread \<open>t\<close> out of such a sleep: a call of
  \<^verbatim>\<open>stop\<close> (the destructor calls it too) and a spurious wake-up of \<open>t\<close>.\<close>

fun rescues :: "nat \<Rightarrow> 'a event \<Rightarrow> bool" where
  "rescues t (Calls u Op_stop) = True"
| "rescues t (Spurious u) = (u = t)"
| "rescues t e = False"

section \<open>The critical sections, case by case\<close>

lemma get_cases:
  "get s = (case m_queue s of
              [] \<Rightarrow> if m_joined s then Returns None s No_notify else Waits s
            | x # rest \<Rightarrow> Returns (Some x) (s\<lparr>m_queue := rest\<rparr>) Notify_all)"
  by (simp add: get_def get_wake_def get_after_wait_def get_pred_def split: list.split)

lemma get_wake_cases:
  "get_wake s = (case m_queue s of
                   [] \<Rightarrow> if m_joined s then Returns None s No_notify else Waits s
                 | x # rest \<Rightarrow> Returns (Some x) (s\<lparr>m_queue := rest\<rparr>) Notify_all)"
  by (simp add: get_wake_def get_after_wait_def get_pred_def split: list.split)

lemma join_cases:
  "join s = (if m_queue s = [] then Returns () (s\<lparr>m_joined := True\<rparr>) No_notify
             else Waits (s\<lparr>m_joined := True\<rparr>))"
  by (simp add: join_def join_wake_def join_pred_def)

lemma close_again: "m_joined u \<Longrightarrow> u\<lparr>m_joined := True\<rparr> = u"
  by simp

lemma members_after_map [simp]: "members_after (map_outcome f x) = members_after x"
  by (cases x) simp_all

text \<open>
  \<^verbatim>\<open>front()\<close> is never reached on an empty queue: the wait predicate and the test
  of line 68 leave only a non-empty queue.
\<close>

lemma get_never_undefined: "get s \<noteq> Undefined_behaviour"
  by (simp add: get_cases split: list.split)

lemma get_wake_never_undefined: "get_wake s \<noteq> Undefined_behaviour"
  by (simp add: get_wake_cases split: list.split)

lemma get_open_empty: "\<not> m_joined s \<Longrightarrow> m_queue s = [] \<Longrightarrow> get s = Waits s"
  by (simp add: get_cases)

text \<open>
  What any critical section does to the two members: the flag is set by \<^verbatim>\<open>stop\<close>
  and \<^verbatim>\<open>join\<close> and cleared by nothing; the queue stays, or an open queue gets the
  pushed value at its back, or \<^verbatim>\<open>get\<close> takes its front away.
\<close>

lemma items_after_perform:
  "\<exists>s'. members_after (perform a s) = Some s' \<and>
     m_joined s' = (m_joined s \<or> a = Call Op_stop \<or> a = Call Op_join) \<and>
     (m_queue s' = m_queue s \<or>
      (\<exists>v. a = Call (Op_push v) \<and> \<not> m_joined s \<and> m_queue s' = m_queue s @ [v]) \<or>
      ((a = Call Op_get \<or> a = Wake_get) \<and> m_queue s \<noteq> [] \<and> m_queue s' = tl (m_queue s)))"
  by (cases a; (cases "m_queue s")?)
     (auto simp: perform_def call_def get_cases get_wake_cases join_cases push_def empty_q_def
         complete_def size_q_def stop_def join_wake_def join_pred_def split: op.split list.split)

text \<open>A sequence of critical sections runs to its end and keeps a closed queue closed.\<close>

lemma perform_closed:
  "m_joined s \<Longrightarrow> \<exists>s'. members_after (perform a s) = Some s' \<and> m_joined s'"
  using items_after_perform [of a s] by auto

lemma run_closed: "m_joined s \<Longrightarrow> \<exists>s'. run as s = Some s' \<and> m_joined s'"
proof (induction as arbitrary: s)
  case Nil
  then show ?case by simp
next
  case (Cons a as)
  from perform_closed [OF Cons.prems, of a]
  obtain s1 where s1: "members_after (perform a s) = Some s1" "m_joined s1" by blast
  from Cons.IH [OF s1(2)] s1(1) show ?case by simp
qed

section \<open>get\<close>

text \<open>
  C1. When the queue is closed and empty, \<^verbatim>\<open>get\<close> returns the empty optional
  at once (the outcome is a return, not a wait) and leaves the members as they were.
  When the queue holds \<open>x # rest\<close>, closed or not, \<^verbatim>\<open>get\<close> returns \<open>x\<close> and
  leaves \<open>rest\<close> in the queue.
\<close>

theorem get_returns:
  "(m_joined s \<and> m_queue s = [] \<longrightarrow> get s = Returns None s No_notify) \<and>
   (m_queue s = x # rest \<longrightarrow> get s = Returns (Some x) (s\<lparr>m_queue := rest\<rparr>) Notify_all)"
  by (simp add: get_def get_wake_def get_after_wait_def get_pred_def)

theorem get_returns_witness:
  "get \<lparr>m_queue = [], m_joined = True\<rparr>
     = Returns (None :: nat option) \<lparr>m_queue = [], m_joined = True\<rparr> No_notify \<and>
   get \<lparr>m_queue = [4, 5, 6 :: nat], m_joined = False\<rparr>
     = Returns (Some 4) \<lparr>m_queue = [5, 6], m_joined = False\<rparr> Notify_all"
  using get_returns [of "\<lparr>m_queue = [] :: nat list, m_joined = True\<rparr>" 0 "[]"]
    get_returns [of "\<lparr>m_queue = [4, 5, 6 :: nat], m_joined = False\<rparr>" 4 "[5, 6]"]
  by simp

section \<open>push\<close>

text \<open>
  C2. On a closed queue \<^verbatim>\<open>push\<close> returns false and leaves the members as they
  were: the value is not appended and the number of items is the same. And so does every
  later \<^verbatim>\<open>push\<close>, whatever critical sections have run in between.
\<close>

theorem push_closed:
  assumes "m_joined s"
  shows "push v s = Returns False s No_notify \<and>
         (\<exists>s'. run as s = Some s' \<and> push v s' = Returns False s' No_notify)"
proof -
  from run_closed [OF assms, of as] obtain s' where "run as s = Some s'" "m_joined s'"
    by blast
  with assms show ?thesis by (simp add: push_def)
qed

theorem push_closed_witness:
  "push (9 :: int) \<lparr>m_queue = [1, 2], m_joined = True\<rparr>
     = Returns False \<lparr>m_queue = [1, 2], m_joined = True\<rparr> No_notify \<and>
   run [Call Op_get, Call Op_stop] \<lparr>m_queue = [1, 2 :: int], m_joined = True\<rparr>
     = Some \<lparr>m_queue = [2], m_joined = True\<rparr> \<and>
   push (9 :: int) \<lparr>m_queue = [2], m_joined = True\<rparr>
     = Returns False \<lparr>m_queue = [2], m_joined = True\<rparr> No_notify"
  using push_closed [of "\<lparr>m_queue = [1, 2 :: int], m_joined = True\<rparr>" 9
      "[Call Op_get, Call Op_stop]"]
  by (simp add: perform_def call_def get_cases stop_def)

section \<open>First in, first out\<close>

lemma push_all_open:
  "\<not> m_joined s \<Longrightarrow>
   push_all vs s = (replicate (length vs) True, s\<lparr>m_queue := m_queue s @ vs\<rparr>)"
  by (induction vs arbitrary: s) (simp_all add: push_def)

lemma get_n_open:
  "\<not> m_joined s \<Longrightarrow> fst (get_n n s) = map Some (take n (m_queue s))"
proof (induction n arbitrary: s)
  case 0
  show ?case by simp
next
  case (Suc n)
  show ?case
  proof (cases "m_queue s")
    case Nil
    with Suc.prems show ?thesis by (simp add: get_cases)
  next
    case (Cons x rest)
    have "\<not> m_joined (s\<lparr>m_queue := rest\<rparr>)" using Suc.prems by simp
    from Suc.IH [OF this] Cons show ?thesis
      by (auto simp: get_cases split: prod.split)
  qed
qed

text \<open>
  The same in any interleaving of calls and wake-ups, by any number of threads: the
  values handed out so far, in the order they were handed out, followed by the queue,
  are the queue of the beginning followed by the accepted values in the order of their
  pushes.
\<close>

lemma history_step:
  "\<exists>s'. members_after (perform a s) = Some s' \<and>
        handed_out (perform a s) @ m_queue s' = m_queue s @ taken_in a (perform a s)"
proof (cases a)
  case (Call f)
  then show ?thesis
    by (cases f; cases "m_queue s")
       (simp_all add: perform_def call_def get_cases push_def empty_q_def size_q_def
          complete_def stop_def join_cases)
next
  case Wake_get
  then show ?thesis
    by (cases "m_queue s") (simp_all add: perform_def get_wake_cases)
next
  case Wake_join
  then show ?thesis
    by (simp add: perform_def join_wake_def)
qed

lemma fifo_history:
  "\<exists>s'. run as s = Some s' \<and>
        fst (history as s) @ m_queue s' = m_queue s @ snd (history as s)"
proof (induction as arbitrary: s)
  case Nil
  show ?case by simp
next
  case (Cons a as)
  from history_step [of a s] obtain s1 where
    s1: "members_after (perform a s) = Some s1"
      "handed_out (perform a s) @ m_queue s1 = m_queue s @ taken_in a (perform a s)"
    by blast
  from Cons.IH [of s1] obtain s' where
    s': "run as s1 = Some s'" "fst (history as s1) @ m_queue s' = m_queue s1 @ snd (history as s1)"
    by blast
  have "handed_out (perform a s) @ fst (history as s1) @ m_queue s'
        = (handed_out (perform a s) @ m_queue s1) @ snd (history as s1)"
    using s'(2) by simp
  also have "\<dots> = m_queue s @ taken_in a (perform a s) @ snd (history as s1)"
    using s1(2) by simp
  finally show ?case using s1(1) s'(1)
    by (simp add: case_prod_beta)
qed

text \<open>
  C3. On an open queue holding \<open>m_queue s\<close>, a producer pushes the values \<open>vs\<close>: every
  push succeeds and the queue is \<open>m_queue s @ vs\<close>. A consumer that then calls
  \<^verbatim>\<open>get\<close> \<open>n\<close> times is given the first \<open>n\<close> of these values, in the order they
  were pushed (all of them when \<open>n\<close> is larger, after which it waits). And whatever a
  critical section is, it leaves the queue as it is, or appends the pushed value at the
  back, or (a \<^verbatim>\<open>get\<close>) removes the front: no item is moved.
\<close>

theorem fifo_order:
  "(\<not> m_joined s \<longrightarrow>
      push_all vs s = (replicate (length vs) True, s\<lparr>m_queue := m_queue s @ vs\<rparr>) \<and>
      fst (get_n n (snd (push_all vs s))) = map Some (take n (m_queue s @ vs))) \<and>
   (\<exists>t'. members_after (perform a t) = Some t' \<and>
      (m_queue t' = m_queue t \<or>
       (\<exists>v. a = Call (Op_push v) \<and> m_queue t' = m_queue t @ [v]) \<or>
       ((a = Call Op_get \<or> a = Wake_get) \<and> m_queue t \<noteq> [] \<and> m_queue t' = tl (m_queue t))))"
proof (intro conjI impI)
  assume "\<not> m_joined s"
  then show pushes:
    "push_all vs s = (replicate (length vs) True, s\<lparr>m_queue := m_queue s @ vs\<rparr>)"
    by (rule push_all_open)
  have "\<not> m_joined (s\<lparr>m_queue := m_queue s @ vs\<rparr>)"
    using \<open>\<not> m_joined s\<close> by simp
  from get_n_open [OF this, of n]
  show "fst (get_n n (snd (push_all vs s))) = map Some (take n (m_queue s @ vs))"
    by (simp add: pushes)
next
  from items_after_perform [of a t]
  show "\<exists>t'. members_after (perform a t) = Some t' \<and>
      (m_queue t' = m_queue t \<or>
       (\<exists>v. a = Call (Op_push v) \<and> m_queue t' = m_queue t @ [v]) \<or>
       ((a = Call Op_get \<or> a = Wake_get) \<and> m_queue t \<noteq> [] \<and> m_queue t' = tl (m_queue t)))"
    by blast
qed

theorem fifo_order_witness:
  "push_all [10, 20, 30 :: int] \<lparr>m_queue = [], m_joined = False\<rparr>
     = ([True, True, True], \<lparr>m_queue = [10, 20, 30], m_joined = False\<rparr>) \<and>
   fst (get_n 3 (snd (push_all [10, 20, 30 :: int] \<lparr>m_queue = [], m_joined = False\<rparr>)))
     = [Some 10, Some 20, Some 30] \<and>
   members_after (perform Wake_get \<lparr>m_queue = [70, 80 :: int], m_joined = True\<rparr>)
     = Some \<lparr>m_queue = [80], m_joined = True\<rparr>"
  using fifo_order [of "\<lparr>m_queue = [] :: int list, m_joined = False\<rparr>" "[10, 20, 30]" 3
      Wake_get "\<lparr>m_queue = [70, 80 :: int], m_joined = True\<rparr>"]
  by (simp add: perform_def get_wake_cases push_def get_cases numeral_3_eq_3)

section \<open>The complete state\<close>

lemma perform_complete:
  "is_complete s \<Longrightarrow> members_after (perform a s) = Some s"
  by (cases a)
     (auto simp: is_complete_def perform_def call_def get_cases get_wake_cases join_cases
        push_def empty_q_def complete_def size_q_def stop_def join_wake_def join_pred_def
        split: op.split)

lemma run_complete: "is_complete s \<Longrightarrow> run as s = Some s"
  by (induction as) (simp_all add: perform_complete)

text \<open>
  C4. \<^verbatim>\<open>complete\<close> returns true exactly in the closed and empty state. Once it
  has returned true, every critical section (the call of any of the seven member
  functions, and the wake-up of a caller sleeping in \<^verbatim>\<open>get\<close> or
  \<^verbatim>\<open>join\<close>) ends closed and empty with \<^verbatim>\<open>complete\<close> returning true, and so
  does any sequence of them.
\<close>

theorem complete_stable:
  "(is_complete s \<longleftrightarrow> returned (complete s) = Some True) \<and>
   (returned (complete s) = Some True \<longrightarrow>
      (\<exists>s'. members_after (perform a s) = Some s' \<and> is_complete s' \<and>
            returned (complete s') = Some True) \<and>
      (\<exists>s'. run as s = Some s' \<and> is_complete s' \<and>
            complete s' = Returns True s' No_notify \<and>
            returned (complete s') = Some True))"
proof (intro conjI impI)
  show "is_complete s \<longleftrightarrow> returned (complete s) = Some True"
    by (simp add: is_complete_def complete_def)
next
  assume "returned (complete s) = Some True"
  then have c: "is_complete s"
    by (simp add: is_complete_def complete_def)
  then have yes: "complete s = Returns True s No_notify"
    by (simp add: is_complete_def complete_def)
  from c yes
  show "\<exists>s'. members_after (perform a s) = Some s' \<and> is_complete s' \<and>
            returned (complete s') = Some True"
    by (simp add: perform_complete)
  from c yes
  show "\<exists>s'. run as s = Some s' \<and> is_complete s' \<and>
            complete s' = Returns True s' No_notify \<and>
            returned (complete s') = Some True"
    by (simp add: run_complete)
qed

theorem complete_stable_witness:
  "returned (complete \<lparr>m_queue = [] :: nat list, m_joined = True\<rparr>) = Some True \<and>
   is_complete \<lparr>m_queue = [] :: nat list, m_joined = True\<rparr> \<and>
   members_after (perform (Call (Op_push 5)) \<lparr>m_queue = [] :: nat list, m_joined = True\<rparr>)
     = Some \<lparr>m_queue = [], m_joined = True\<rparr> \<and>
   run [Call Op_get, Call (Op_push 5), Call Op_join, Wake_get, Call Op_stop]
       \<lparr>m_queue = [] :: nat list, m_joined = True\<rparr>
     = Some \<lparr>m_queue = [], m_joined = True\<rparr> \<and>
   returned (complete \<lparr>m_queue = [] :: nat list, m_joined = False\<rparr>) = Some False \<and>
   returned (complete \<lparr>m_queue = [5 :: nat], m_joined = True\<rparr>) = Some False"
proof -
  have h: "returned (complete \<lparr>m_queue = [] :: nat list, m_joined = True\<rparr>) = Some True"
    by (simp add: complete_def)
  from complete_stable [of "\<lparr>m_queue = [] :: nat list, m_joined = True\<rparr>"
      "Call (Op_push 5)"
      "[Call Op_get, Call (Op_push 5), Call Op_join, Wake_get, Call Op_stop]"] h
  show ?thesis
    by (simp add: perform_def call_def push_def get_cases get_wake_cases join_cases stop_def
        complete_def is_complete_def)
qed

section \<open>The closed flag\<close>

text \<open>
  C5. Once \<^verbatim>\<open>m_joined\<close> is true it is true after every critical section, and so
  after any sequence of them.
\<close>

theorem closed_monotonic:
  assumes "m_joined s"
  shows "(\<exists>s'. members_after (perform a s) = Some s' \<and> m_joined s') \<and>
         (\<exists>s'. run as s = Some s' \<and> m_joined s')"
  using assms by (simp add: perform_closed run_closed)

theorem closed_monotonic_witness:
  "m_joined \<lparr>m_queue = [1, 2 :: nat], m_joined = True\<rparr> \<and>
   members_after (perform (Call Op_get) \<lparr>m_queue = [1, 2 :: nat], m_joined = True\<rparr>)
     = Some \<lparr>m_queue = [2], m_joined = True\<rparr> \<and>
   run [Call Op_get, Call (Op_push 5), Wake_join, Call Op_get, Call Op_size]
       \<lparr>m_queue = [1, 2 :: nat], m_joined = True\<rparr>
     = Some \<lparr>m_queue = [], m_joined = True\<rparr>"
proof -
  have h: "m_joined \<lparr>m_queue = [1, 2 :: nat], m_joined = True\<rparr>"
    by simp
  from closed_monotonic [OF h, of "Call Op_get"
      "[Call Op_get, Call (Op_push 5), Wake_join, Call Op_get, Call Op_size]"]
  show ?thesis
    by (simp add: perform_def call_def push_def get_cases size_q_def join_wake_def
        join_pred_def)
qed

section \<open>join\<close>

text \<open>
  C6. \<^verbatim>\<open>join\<close> leaves \<^verbatim>\<open>m_joined\<close> true and the queue as it was, so a push
  that follows is refused, as after \<^verbatim>\<open>stop\<close>. On an empty queue it returns in
  the call. On a non-empty queue the caller sleeps; each time it wakes up it returns only
  if the queue is closed and empty, and sleeps again otherwise.
\<close>

theorem join_closes:
  "(\<exists>s'. members_after (join s) = Some s' \<and> m_joined s' \<and> m_queue s' = m_queue s \<and>
          push v s' = Returns False s' No_notify) \<and>
   (m_queue s = [] \<longrightarrow> join s = Returns () (s\<lparr>m_joined := True\<rparr>) No_notify) \<and>
   (m_queue s \<noteq> [] \<longrightarrow> join s = Waits (s\<lparr>m_joined := True\<rparr>)) \<and>
   (join_wake t = Returns r t' k \<longrightarrow> t' = t \<and> m_joined t \<and> m_queue t = []) \<and>
   (\<not> (m_joined t \<and> m_queue t = []) \<longrightarrow> join_wake t = Waits t)"
  by (auto simp: join_cases push_def join_wake_def join_pred_def)

theorem join_closes_witness:
  "join \<lparr>m_queue = [] :: nat list, m_joined = False\<rparr>
     = Returns () \<lparr>m_queue = [], m_joined = True\<rparr> No_notify \<and>
   join \<lparr>m_queue = [3 :: nat], m_joined = False\<rparr> = Waits \<lparr>m_queue = [3], m_joined = True\<rparr> \<and>
   join_wake \<lparr>m_queue = [3 :: nat], m_joined = True\<rparr> = Waits \<lparr>m_queue = [3], m_joined = True\<rparr> \<and>
   join_wake \<lparr>m_queue = [] :: nat list, m_joined = True\<rparr>
     = Returns () \<lparr>m_queue = [], m_joined = True\<rparr> No_notify"
  using join_closes [of "\<lparr>m_queue = [] :: nat list, m_joined = False\<rparr>" 0
      "\<lparr>m_queue = [3 :: nat], m_joined = True\<rparr>" "()"
      "\<lparr>m_queue = [3 :: nat], m_joined = True\<rparr>" No_notify]
    join_closes [of "\<lparr>m_queue = [3 :: nat], m_joined = False\<rparr>" 0
      "\<lparr>m_queue = [] :: nat list, m_joined = True\<rparr>" "()"
      "\<lparr>m_queue = [] :: nat list, m_joined = True\<rparr>" No_notify]
  by (simp add: join_wake_def join_pred_def)

section \<open>Shutting down twice\<close>

text \<open>
  C7. After a first \<^verbatim>\<open>stop\<close> or \<^verbatim>\<open>join\<close>, any further calls of
  \<^verbatim>\<open>stop\<close> and \<^verbatim>\<open>join\<close>, in any number and order, leave the queue and the
  flag exactly as the first call left them: the items of before, and the flag true. The
  same holds in any closed state \<open>u\<close>, a closed and empty one included.
\<close>

theorem shutdown_idempotent:
  assumes "f \<in> {Op_stop, Op_join}" and "set fs \<subseteq> {Op_stop, Op_join}"
  shows "(\<exists>s1. run [Call f] s = Some s1 \<and> run (map Call (f # fs)) s = Some s1 \<and>
               m_queue s1 = m_queue s \<and> m_joined s1) \<and>
         (m_joined u \<longrightarrow> run (map Call fs) u = Some u)"
proof -
  have again: "run (map Call gs) w = Some w"
    if "m_joined w" and "set gs \<subseteq> {Op_stop, Op_join}" for gs and w :: "'a ThreadSafeQueue"
    using that
    by (induction gs) (auto simp: perform_def call_def stop_def join_cases close_again)
  let ?s1 = "s\<lparr>m_joined := True\<rparr>"
  from assms(1) have first: "members_after (perform (Call f) s) = Some ?s1"
    by (auto simp: perform_def call_def stop_def join_cases)
  have "m_joined ?s1" by simp
  from again [OF this assms(2)] first again [OF _ assms(2), of u] show ?thesis by simp
qed

theorem shutdown_idempotent_witness:
  "run [Call Op_stop] \<lparr>m_queue = [1, 2 :: int], m_joined = False\<rparr>
     = Some \<lparr>m_queue = [1, 2], m_joined = True\<rparr> \<and>
   run (map Call [Op_stop, Op_join, Op_stop, Op_stop, Op_join])
       \<lparr>m_queue = [1, 2 :: int], m_joined = False\<rparr>
     = Some \<lparr>m_queue = [1, 2], m_joined = True\<rparr> \<and>
   run (map Call [Op_join, Op_stop, Op_stop, Op_join])
       \<lparr>m_queue = [] :: int list, m_joined = True\<rparr>
     = Some \<lparr>m_queue = [], m_joined = True\<rparr>"
  using shutdown_idempotent [of Op_stop "[Op_join, Op_stop, Op_stop, Op_join]"
      "\<lparr>m_queue = [1, 2 :: int], m_joined = False\<rparr>"
      "\<lparr>m_queue = [] :: int list, m_joined = True\<rparr>"]
  by (simp add: perform_def call_def stop_def join_cases)

section \<open>The observers\<close>

text \<open>
  C8. In any state of the queue, \<^verbatim>\<open>size\<close> returns 0 exactly when
  \<^verbatim>\<open>empty\<close> returns true; and when the queue is closed, \<^verbatim>\<open>empty\<close> returns
  true exactly when \<^verbatim>\<open>complete\<close> returns true.
\<close>

theorem observers_agree:
  "(returned (size_q s) = Some 0 \<longleftrightarrow> returned (empty_q s) = Some True) \<and>
   (m_joined s \<longrightarrow>
      (returned (empty_q s) = Some True \<longleftrightarrow> returned (complete s) = Some True))"
  by (simp add: size_q_def empty_q_def complete_def)

theorem observers_agree_witness:
  "returned (size_q \<lparr>m_queue = [] :: nat list, m_joined = True\<rparr>) = Some 0 \<and>
   returned (empty_q \<lparr>m_queue = [] :: nat list, m_joined = True\<rparr>) = Some True \<and>
   returned (complete \<lparr>m_queue = [] :: nat list, m_joined = True\<rparr>) = Some True \<and>
   returned (size_q \<lparr>m_queue = [5 :: nat], m_joined = True\<rparr>) = Some 1 \<and>
   returned (empty_q \<lparr>m_queue = [5 :: nat], m_joined = True\<rparr>) = Some False \<and>
   returned (complete \<lparr>m_queue = [5 :: nat], m_joined = True\<rparr>) = Some False"
  using observers_agree [of "\<lparr>m_queue = [] :: nat list, m_joined = True\<rparr>"]
    observers_agree [of "\<lparr>m_queue = [5 :: nat], m_joined = True\<rparr>"]
  by (simp add: size_q_def empty_q_def complete_def)

text \<open>
  C10. \<^verbatim>\<open>empty\<close>, \<^verbatim>\<open>size\<close> and \<^verbatim>\<open>complete\<close> return with the queue and
  the flag exactly as they found them (and notify nobody).
\<close>

theorem observers_pure:
  "(\<exists>r. empty_q s = Returns r s No_notify) \<and>
   (\<exists>r. size_q s = Returns r s No_notify) \<and>
   (\<exists>r. complete s = Returns r s No_notify)"
  by (simp add: size_q_def empty_q_def complete_def)

theorem observers_pure_witness:
  "empty_q \<lparr>m_queue = [5, 6 :: nat], m_joined = False\<rparr>
     = Returns False \<lparr>m_queue = [5, 6], m_joined = False\<rparr> No_notify \<and>
   size_q \<lparr>m_queue = [5, 6 :: nat], m_joined = False\<rparr>
     = Returns 2 \<lparr>m_queue = [5, 6], m_joined = False\<rparr> No_notify \<and>
   complete \<lparr>m_queue = [5, 6 :: nat], m_joined = False\<rparr>
     = Returns False \<lparr>m_queue = [5, 6], m_joined = False\<rparr> No_notify"
  using observers_pure [of "\<lparr>m_queue = [5, 6 :: nat], m_joined = False\<rparr>"]
  by (simp add: size_q_def empty_q_def complete_def)

section \<open>Threads\<close>

text \<open>When each event can happen, and what it leads to.\<close>

lemma step_Calls:
  "c' \<in> set (step (Calls u f) c) \<longleftrightarrow>
     (\<exists>r. u < length (threads c) \<and> threads c ! u = Ready r \<and>
          c' \<in> set (finish u (unlocks_first f) (sleeps_in f) (threads c) (call f (members c))))"
  by (cases "u < length (threads c)"; cases "threads c ! u") simp_all

lemma step_Wakes:
  "c' \<in> set (step (Wakes u) c) \<longleftrightarrow>
     (\<exists>b. u < length (threads c) \<and> threads c ! u = Notified b \<and>
          c' \<in> set (finish u False b (threads c) (perform (wake_action b) (members c))))"
  by (cases "u < length (threads c)"; cases "threads c ! u") simp_all

lemma step_Notifies:
  "c' \<in> set (step (Notifies u) c) \<longleftrightarrow>
     (\<exists>n r. u < length (threads c) \<and> threads c ! u = Leaving n r \<and>
          c' \<in> (\<lambda>ts'. c\<lparr>threads := ts'[u := Ready (Some r)]\<rparr>) ` set (notify n (threads c)))"
  by (cases "u < length (threads c)"; cases "threads c ! u") simp_all

lemma step_Spurious:
  "c' \<in> set (step (Spurious u) c) \<longleftrightarrow>
     (\<exists>b. u < length (threads c) \<and> threads c ! u = Asleep b \<and>
          c' = c\<lparr>threads := (threads c)[u := Notified b]\<rparr>)"
  by (cases "u < length (threads c)"; cases "threads c ! u") simp_all

subsection \<open>A consumer asleep in a closed, empty queue\<close>

text \<open>
  On a closed and empty queue every call but \<^verbatim>\<open>stop\<close> returns without a
  notification, and so does every wake-up.
\<close>

lemma call_complete:
  "is_complete s \<Longrightarrow> f \<noteq> Op_stop \<Longrightarrow> \<exists>r. call f s = Returns r s No_notify"
  by (cases f)
     (simp_all add: is_complete_def call_def get_cases push_def empty_q_def size_q_def
        complete_def join_cases)

lemma wake_complete:
  "is_complete s \<Longrightarrow> \<exists>r. perform (wake_action b) s = Returns r s No_notify"
  by (cases b)
     (simp_all add: is_complete_def perform_def get_wake_cases join_wake_def join_pred_def)

lemma list_all_update:
  "list_all P xs \<Longrightarrow> P x \<Longrightarrow> list_all P (xs[i := x])"
  by (induction xs arbitrary: i) (auto split: nat.split)

lemma overlooked_update:
  assumes "overlooked t c" and "u \<noteq> t" and "\<not> is_leaving x"
  shows "overlooked t \<lparr>members = members c, threads = (threads c)[u := x]\<rparr>"
  using assms by (simp add: overlooked_def list_all_update)

text \<open>
  Such a consumer stays asleep whatever the other threads do, as long as nobody calls
  \<^verbatim>\<open>stop\<close> and no spurious wake-up reaches it.
\<close>

lemma overlooked_step:
  assumes "overlooked t c" and "\<not> rescues t e" and "c' \<in> set (step e c)"
  shows "overlooked t c'"
proof -
  from assms(1) have comp: "is_complete (members c)"
    and asleep: "threads c ! t = Asleep In_get"
    and none: "list_all (\<lambda>x. \<not> is_leaving x) (threads c)"
    by (simp_all add: overlooked_def)
  show ?thesis
  proof (cases e)
    case (Calls u f)
    with assms(2) have "f \<noteq> Op_stop" by auto
    from call_complete [OF comp this]
    obtain r where r: "call f (members c) = Returns r (members c) No_notify"
      by blast
    from assms(3) [unfolded Calls step_Calls] obtain r0 where u: "threads c ! u = Ready r0"
      and c': "c' \<in> set (finish u (unlocks_first f) (sleeps_in f) (threads c) (call f (members c)))"
      by blast
    from u asleep have "u \<noteq> t" by auto
    from overlooked_update [OF assms(1) this, of "Ready (Some r)"] c' r
    show ?thesis by simp
  next
    case (Wakes u)
    from assms(3) [unfolded Wakes step_Wakes] obtain b where u: "threads c ! u = Notified b"
      and c': "c' \<in> set (finish u False b (threads c) (perform (wake_action b) (members c)))"
      by blast
    from wake_complete [OF comp, of b]
    obtain r where r: "perform (wake_action b) (members c) = Returns r (members c) No_notify"
      by blast
    from u asleep have "u \<noteq> t" by auto
    from overlooked_update [OF assms(1) this, of "Ready (Some r)"] c' r
    show ?thesis by simp
  next
    case (Notifies u)
    from assms(3) [unfolded Notifies step_Notifies] obtain n r where "u < length (threads c)" "threads c ! u = Leaving n r"
      by blast
    with none have False
      by (auto simp: list_all_length)
    then show ?thesis ..
  next
    case (Spurious u)
    with assms(2) have "u \<noteq> t" by simp
    from assms(3) [unfolded Spurious step_Spurious] obtain b where
      c': "c' = c\<lparr>threads := (threads c)[u := Notified b]\<rparr>"
      by blast
    from overlooked_update [OF assms(1) \<open>u \<noteq> t\<close>, of "Notified b"] c'
    show ?thesis by (simp add: overlooked_def)
  qed
qed

lemma overlooked_steps:
  "overlooked t c \<Longrightarrow> list_all (\<lambda>e. \<not> rescues t e) es \<Longrightarrow> c' \<in> set (steps es c) \<Longrightarrow>
   overlooked t c'"
proof (induction es arbitrary: c)
  case Nil
  then show ?case by simp
next
  case (Cons e es)
  from Cons.prems(3) obtain c1 where c1: "c1 \<in> set (step e c)" "c' \<in> set (steps es c1)"
    by auto
  from Cons.prems(1,2) c1(1) have "overlooked t c1"
    by (auto intro: overlooked_step)
  with Cons.IH [of c1] Cons.prems(2) c1(2) show ?case by simp
qed


subsection \<open>A notification only wakes\<close>

lemma wake_one_nth:
  "ts' \<in> set (wake_one ts) \<Longrightarrow>
   length ts' = length ts \<and>
   (\<forall>i < length ts. ts' ! i = ts ! i \<or> (\<exists>b. ts ! i = Asleep b \<and> ts' ! i = Notified b))"
proof (induction ts arbitrary: ts')
  case Nil
  then show ?case by simp
next
  case (Cons x xs)
  from Cons.prems consider
      (here) "is_asleep x" "ts' = wake x # xs"
    | (later) ys where "ys \<in> set (wake_one xs)" "ts' = x # ys"
    by (auto split: if_splits)
  then show ?case
  proof cases
    case here
    then show ?thesis
      by (cases x) (auto simp: nth_Cons split: nat.split)
  next
    case later
    with Cons.IH [of ys] show ?thesis
      by (auto simp: nth_Cons split: nat.split)
  qed
qed

lemma notify_nth:
  assumes "ts' \<in> set (notify n ts)"
  shows "length ts' = length ts \<and>
   (\<forall>i < length ts. ts' ! i = ts ! i \<or> (\<exists>b. ts ! i = Asleep b \<and> ts' ! i = Notified b))"
proof (cases n)
  case No_notify
  with assms show ?thesis by simp
next
  case Notify_one
  with assms wake_one_nth [of ts' ts] show ?thesis
    by (auto split: if_splits)
next
  case Notify_all
  have "wake (ts ! i) = ts ! i \<or> (\<exists>b. ts ! i = Asleep b \<and> wake (ts ! i) = Notified b)" for i
    by (cases "ts ! i") simp_all
  with assms Notify_all show ?thesis by simp
qed

text \<open>What a critical section of thread \<open>u\<close> does to another thread \<open>t\<close>: nothing, or
  it takes it out of the wait set.\<close>

lemma finish_other:
  assumes "c' \<in> set (finish u early b ts out)" and "u \<noteq> t" and "t < length ts"
  shows "threads c' ! t = ts ! t \<or> (\<exists>b'. ts ! t = Asleep b' \<and> threads c' ! t = Notified b')"
proof (cases out)
  case (Returns r s n)
  show ?thesis
  proof (cases "n = No_notify \<or> early")
    case True
    with assms Returns show ?thesis by (auto split: if_splits)
  next
    case False
    with assms(1) Returns obtain ts' where ts': "ts' \<in> set (notify n ts)"
      and c': "c' = \<lparr>members = s, threads = ts'[u := Ready (Some r)]\<rparr>"
      by auto
    from notify_nth [OF ts'] assms(2,3) c' show ?thesis by simp
  qed
next
  case (Waits s)
  with assms show ?thesis by simp
next
  case Undefined_behaviour
  with assms show ?thesis by simp
qed

lemma step_other:
  assumes "c' \<in> set (step e c)" and "t < length (threads c)"
    and "e \<noteq> Wakes t" and "\<And>f. e \<noteq> Calls t f"
  shows "threads c' ! t = threads c ! t \<or>
         (\<exists>b. threads c ! t = Asleep b \<and> threads c' ! t = Notified b) \<or>
         (\<exists>n r. threads c ! t = Leaving n r \<and> threads c' ! t = Ready (Some r))"
proof (cases e)
  case (Calls u f)
  with assms(4) have "u \<noteq> t" by auto
  from assms(1) [unfolded Calls step_Calls] finish_other [OF _ this assms(2)]
  show ?thesis by blast
next
  case (Wakes u)
  with assms(3) have "u \<noteq> t" by auto
  from assms(1) [unfolded Wakes step_Wakes] finish_other [OF _ this assms(2)]
  show ?thesis by blast
next
  case (Notifies u)
  from assms(1) [unfolded Notifies step_Notifies] obtain n r ts' where
    u: "threads c ! u = Leaving n r" and ts': "ts' \<in> set (notify n (threads c))"
    and c': "c' = c\<lparr>threads := ts'[u := Ready (Some r)]\<rparr>"
    by blast
  from notify_nth [OF ts'] assms(2) u c' show ?thesis
    by (cases "u = t") auto
next
  case (Spurious u)
  from assms(1) [unfolded Spurious step_Spurious] obtain b where
    u: "threads c ! u = Asleep b" and c': "c' = c\<lparr>threads := (threads c)[u := Notified b]\<rparr>"
    by blast
  with assms(2) show ?thesis
    by (cases "u = t") auto
qed

subsection \<open>A thread comes back from join only to a closed, empty queue\<close>

lemma join_call_returns:
  assumes "c' \<in> set (step (Calls t Op_join) c)" and "threads c' ! t = Ready r"
  shows "is_complete (members c')"
proof -
  from assms(1) [unfolded step_Calls] have t: "t < length (threads c)"
    and c': "c' \<in> set (finish t False In_join (threads c) (call Op_join (members c)))"
    by auto
  show ?thesis
  proof (cases "m_queue (members c) = []")
    case True
    with c' show ?thesis by (simp add: call_def join_cases is_complete_def)
  next
    case False
    with c' t assms(2) show ?thesis by (simp add: call_def join_cases)
  qed
qed

lemma join_wait_returns:
  assumes "c' \<in> set (step e c)" and "t < length (threads c)"
    and "threads c ! t = Asleep In_join \<or> threads c ! t = Notified In_join"
    and "threads c' ! t = Ready r"
  shows "e = Wakes t \<and> is_complete (members c')"
proof (cases "e = Wakes t")
  case True
  from assms(1) [unfolded True step_Wakes] assms(3)
  have c': "c' \<in> set (finish t False In_join (threads c) (perform Wake_join (members c)))"
    by auto
  show ?thesis
  proof (cases "join_pred (members c)")
    case True
    with c' \<open>e = Wakes t\<close> show ?thesis
      by (simp add: perform_def join_wake_def is_complete_def join_pred_def)
  next
    case False
    with c' assms(2,4) show ?thesis by (simp add: perform_def join_wake_def)
  qed
next
  case False
  have "e \<noteq> Calls t f" for f
  proof
    assume "e = Calls t f"
    from assms(1) [unfolded this step_Calls] assms(3) show False by auto
  qed
  from step_other [OF assms(1,2) False this] assms(3,4) show ?thesis by auto
qed

subsection \<open>stop wakes every sleeper\<close>

lemma stop_notifies_all:
  assumes "u < length (threads c)" and "threads c ! u = Ready r0"
  shows "steps [Calls u Op_stop, Notifies u] c =
     [\<lparr>members = (members c)\<lparr>m_joined := True\<rparr>,
       threads = (map wake (threads c))[u := Ready (Some Done)]\<rparr>]"
  using assms by (simp add: call_def stop_def map_update)

lemma woken_get_returns_empty:
  assumes "t < length (threads c)" and "threads c ! t = Notified In_get"
    and "is_complete (members c)"
  shows "step (Wakes t) c =
     [\<lparr>members = members c, threads = (threads c)[t := Ready (Some (Got None))]\<rparr>]"
  using assms by (simp add: perform_def get_wake_cases is_complete_def)

lemma concat_map_concat:
  "concat (map f (concat xss)) = concat (map (\<lambda>xs. concat (map f xs)) xss)"
  by (induction xss) simp_all

lemma steps_single: "steps [e] c = step e c"
proof -
  have "steps [] = (\<lambda>c :: 'a system. [c])" by (rule ext) simp
  then show ?thesis by (simp del: step.simps)
qed

lemma steps_append: "steps (es @ fs) c = concat (map (steps fs) (steps es c))"
proof (induction es arbitrary: c)
  case Nil
  show ?case by simp
next
  case (Cons e es)
  have "steps (es @ fs) = (\<lambda>c. concat (map (steps fs) (steps es c)))"
    by (rule ext) (rule Cons.IH)
  then show ?case
    by (simp add: concat_map_concat o_def del: step.simps)
qed

text \<open>
  A consumer asleep in \<^verbatim>\<open>get\<close> on an empty queue, another thread that calls
  \<^verbatim>\<open>stop\<close> and notifies: the consumer, awake, returns the empty optional.
\<close>

lemma stop_releases_consumer:
  assumes "t < length (threads c)" and "threads c ! t = Asleep In_get"
    and "u < length (threads c)" and "threads c ! u = Ready r0"
    and "m_queue (members c) = []"
  shows "steps [Calls u Op_stop, Notifies u, Wakes t] c =
     [\<lparr>members = (members c)\<lparr>m_joined := True\<rparr>,
       threads =
         (map wake (threads c))[u := Ready (Some Done), t := Ready (Some (Got None))]\<rparr>]"
proof -
  let ?c1 = "\<lparr>members = (members c)\<lparr>m_joined := True\<rparr>,
       threads = (map wake (threads c))[u := Ready (Some Done)]\<rparr>"
  from assms(2,4) have "u \<noteq> t" by auto
  have "t < length (threads ?c1)" using assms(1) by simp
  moreover from \<open>u \<noteq> t\<close> assms(1,2) have "threads ?c1 ! t = Notified In_get" by simp
  moreover have "is_complete (members ?c1)" using assms(5) by (simp add: is_complete_def)
  ultimately have "step (Wakes t) ?c1 =
      [\<lparr>members = members ?c1, threads = (threads ?c1)[t := Ready (Some (Got None))]\<rparr>]"
    by (rule woken_get_returns_empty)
  moreover have "steps [Calls u Op_stop, Notifies u, Wakes t] c = step (Wakes t) ?c1"
    using stop_notifies_all [OF assms(3,4)]
      steps_append [of "[Calls u Op_stop, Notifies u]" "[Wakes t]" c]
    by (simp add: steps_single del: step.simps steps.simps)
  ultimately show ?thesis by simp
qed

subsection \<open>join on an empty queue wakes nobody\<close>

text \<open>
  C9. The claim is that a consumer asleep in \<^verbatim>\<open>get\<close> is released when the queue
  is closed and empty. Here a consumer (thread 0) calls \<^verbatim>\<open>get\<close> on the new queue
  and sleeps; thread 1 calls \<^verbatim>\<open>join\<close>, which closes the empty queue and returns
  at line 145 with no notification. The queue is now closed and empty and a wake-up of
  the consumer would return the empty optional, yet the consumer is still in the wait
  set: it has no step of its own, and by \<open>overlooked_steps\<close> it sleeps on until some
  thread calls \<^verbatim>\<open>stop\<close> or a spurious wake-up reaches it.
\<close>

theorem join_leaves_consumer_asleep:
  "steps [Calls 0 Op_get, Calls 1 Op_join] (start 2 :: nat system) =
     [\<lparr>members = \<lparr>m_queue = [], m_joined = True\<rparr>,
       threads = [Asleep In_get, Ready (Some Done)]\<rparr>] \<and>
   get_wake \<lparr>m_queue = [] :: nat list, m_joined = True\<rparr>
     = Returns None \<lparr>m_queue = [], m_joined = True\<rparr> No_notify \<and>
   overlooked 0 \<lparr>members = \<lparr>m_queue = [] :: nat list, m_joined = True\<rparr>,
       threads = [Asleep In_get, Ready (Some Done)]\<rparr> \<and>
   step (Wakes 0) \<lparr>members = \<lparr>m_queue = [] :: nat list, m_joined = True\<rparr>,
       threads = [Asleep In_get, Ready (Some Done)]\<rparr> = []"
  by (simp add: start_def call_def get_cases get_wake_cases join_cases overlooked_def
      is_complete_def numeral_2_eq_2)

end
